theory Spec2Isabelle
  imports Main
begin

section \<open>The game model of \<open>src/lib/model.py\<close>\<close>

text \<open>
  The engine of the 3x3x3 tic-tac-toe game is the class \<open>Game\<close> of \<open>model.py\<close>. Its
  attributes become a record, its methods become functions that take the game and return
  the updated game, the signals sent through the dispatcher become a list of emitted
  signals, and every exception the code can raise becomes a value of type \<open>error\<close>.
  Python integers are unbounded, so every counter is an \<open>int\<close>; \<open>//\<close> and \<open>%\<close> of
  Python round towards minus infinity exactly as \<open>div\<close> and \<open>mod\<close> on \<open>int\<close> do.
\<close>

subsection \<open>Constants\<close>

type_synonym position = "int \<times> int \<times> int"

text \<open>The three strings \<open>BLANK = '_'\<close>, \<open>RED = 'X'\<close> and \<open>BLUE = 'O'\<close>.\<close>

datatype mark = BLANK | RED | BLUE

definition SIZE :: int where
  "SIZE = 3"

definition SQUARES_PER_LEVEL :: int where
  "SQUARES_PER_LEVEL = SIZE ^ 2"

definition TOTAL_SQUARES :: int where
  "TOTAL_SQUARES = SIZE ^ 3"

definition SPECIAL_SQUARES :: "int list" where
  "SPECIAL_SQUARES = [1, 2, 6, 7]"

definition RANGE_SIZE :: "int list" where
  "RANGE_SIZE = [0..SIZE - 1]"

definition RANGE_SIZE_REVERSED :: "int list" where
  "RANGE_SIZE_REVERSED = rev RANGE_SIZE"

definition TICTACTOE_VALUE :: int where
  "TICTACTOE_VALUE = 1"

definition SPECIAL_TICTACTOE_VALUE :: int where
  "SPECIAL_TICTACTOE_VALUE = 2"

definition invert :: "int \<Rightarrow> int" where
  "invert i = SIZE - 1 - i"

subsection \<open>Status messages, signals and errors\<close>

text \<open>
  A status message is a pair \<open>(fmt, args)\<close> of one of the four \<open>STATUS_\<close> format
  constants and its arguments.
\<close>

datatype status_msg =
    STATUS_ONLY_UP
  | STATUS_TIE
  | STATUS_WINNER mark
  | STATUS_POINTS_EARNED int string

text \<open>
  The five signals. \<open>"SCORE CHANGED"\<close> carries \<open>xyzs_included\<close> when it is sent by
  \<open>_handle_tictactoe\<close> and no argument when it is sent by \<open>reset\<close>.
\<close>

datatype signal =
    LEVEL_CHANGED
  | SCORE_CHANGED "position list option"
  | BOARD_CHANGED
  | PLAYER_CHANGED
  | STATUS_CHANGED

text \<open>
  \<open>move\<close> raises \<open>ValueError("Wrong level")\<close> and \<open>ValueError('Square taken')\<close>; a
  dictionary lookup of a missing key raises \<open>KeyError\<close> and \<open>path[0]\<close> of an empty
  list raises \<open>IndexError\<close>.
\<close>

datatype error = ValueError string | KeyError | IndexError

abbreviation WrongLevelError :: error where
  "WrongLevelError \<equiv> ValueError ''Wrong level''"

abbreviation CellTakenError :: error where
  "CellTakenError \<equiv> ValueError ''Square taken''"

subsection \<open>Squares\<close>

record Square =
  xyz :: position
  val :: mark
  special :: bool

definition Square_reset :: "Square \<Rightarrow> Square" where
  "Square_reset sq = sq\<lparr>val := BLANK, special := False\<rparr>"

definition Square_init :: "position \<Rightarrow> Square" where
  "Square_init p = Square_reset \<lparr>xyz = p, val = BLANK, special = False\<rparr>"

subsection \<open>The game\<close>

record Game =
  board :: "position \<rightharpoonup> Square"
  scores :: "mark \<rightharpoonup> int"
  move_count :: int
  first_player :: mark
  status :: "status_msg list"

definition iter_xyz :: "position list" where
  "iter_xyz =
     concat (map (\<lambda>x. concat (map (\<lambda>y. map (\<lambda>z. (x, y, z)) RANGE_SIZE) RANGE_SIZE))
       RANGE_SIZE)"

definition done_game :: "Game \<Rightarrow> bool" where
  "done_game g = (move_count g = TOTAL_SQUARES)"

definition current_level :: "Game \<Rightarrow> int" where
  "current_level g = move_count g div SQUARES_PER_LEVEL"

definition other_player :: "mark \<Rightarrow> mark" where
  "other_player player = (if player = RED then BLUE else RED)"

definition current_player :: "Game \<Rightarrow> mark" where
  "current_player g =
     (let odd = move_count g mod 2
      in if odd \<noteq> 0 then other_player (first_player g) else first_player g)"

definition current_move_special :: "Game \<Rightarrow> bool" where
  "current_move_special g = (move_count g mod SQUARES_PER_LEVEL \<in> set SPECIAL_SQUARES)"

definition winner :: "Game \<Rightarrow> error + mark option" where
  "winner g =
     (case scores g RED of
        None \<Rightarrow> Inl KeyError
      | Some r \<Rightarrow>
         (case scores g BLUE of
            None \<Rightarrow> Inl KeyError
          | Some b \<Rightarrow>
             (let difference = r - b
              in if difference = 0 then Inr None
                 else if difference > 0 then Inr (Some RED)
                 else Inr (Some BLUE))))"

subsection \<open>The table of winning paths\<close>

text \<open>
  \<open>_calc_winning_paths\<close> builds the list by appending in nested loops; the loops over
  \<open>RANGE_SIZE\<close> become \<open>map\<close> and \<open>concat\<close> in the same order. The paths within
  one level \<open>z\<close> are the rows, the columns and the two diagonals.
\<close>

definition level_paths :: "int \<Rightarrow> position list list" where
  "level_paths z =
     map (\<lambda>y. map (\<lambda>x. (x, y, z)) RANGE_SIZE) RANGE_SIZE
     @ map (\<lambda>x. map (\<lambda>y. (x, y, z)) RANGE_SIZE) RANGE_SIZE
     @ [map (\<lambda>i. (i, i, z)) RANGE_SIZE,
        map (\<lambda>i. (invert i, i, z)) RANGE_SIZE]"

text \<open>For one \<open>x\<close>: the vertical lines, then the two column stairs.\<close>

definition column_paths :: "int \<Rightarrow> position list list" where
  "column_paths x =
     map (\<lambda>y. map (\<lambda>z. (x, y, z)) RANGE_SIZE_REVERSED) RANGE_SIZE
     @ [map (\<lambda>i. (x, i, i)) RANGE_SIZE_REVERSED,
        map (\<lambda>i. (x, invert i, i)) RANGE_SIZE_REVERSED]"

text \<open>For one \<open>y\<close>: the two row stairs.\<close>

definition row_stairs :: "int \<Rightarrow> position list list" where
  "row_stairs y =
     [map (\<lambda>i. (i, y, i)) RANGE_SIZE_REVERSED,
      map (\<lambda>i. (invert i, y, i)) RANGE_SIZE_REVERSED]"

definition diagonal_stairs :: "position list list" where
  "diagonal_stairs =
     [map (\<lambda>i. (i, i, i)) RANGE_SIZE_REVERSED,
      map (\<lambda>i. (i, invert i, i)) RANGE_SIZE_REVERSED,
      map (\<lambda>i. (invert i, i, i)) RANGE_SIZE_REVERSED,
      map (\<lambda>i. (invert i, invert i, i)) RANGE_SIZE_REVERSED]"

text \<open>
  The class attribute \<open>_winning_paths\<close> is computed on first use and kept; the
  computation reads nothing but the constants, so the attribute always holds this list.
\<close>

definition calc_winning_paths :: "position list list" where
  "calc_winning_paths =
     concat (map level_paths RANGE_SIZE)
     @ concat (map column_paths RANGE_SIZE)
     @ concat (map row_stairs RANGE_SIZE)
     @ diagonal_stairs"

subsection \<open>Scoring: \<open>_handle_tictactoe\<close>\<close>

text \<open>The inner loop over the squares of one path, counting \<open>hits\<close> and \<open>special_hits\<close>.\<close>

fun count_hits :: "Game \<Rightarrow> position list \<Rightarrow> int \<times> int \<Rightarrow> error + (int \<times> int)" where
  "count_hits g [] (hits, special_hits) = Inr (hits, special_hits)"
| "count_hits g (q # qs) (hits, special_hits) =
     (case board g q of
        None \<Rightarrow> Inl KeyError
      | Some sq \<Rightarrow>
         if val sq = current_player g then
           (if special sq then count_hits g qs (hits + 1, special_hits + 1)
            else count_hits g qs (hits + 1, special_hits))
         else count_hits g qs (hits, special_hits))"

text \<open>
  The outer loop over the paths, with the accumulators \<open>points_earned\<close> and
  \<open>xyzs_included\<close>. The two \<open>continue\<close> statements skip a path whose first square lies
  above the move and a path that does not contain the move.
\<close>

fun scan_paths ::
  "Game \<Rightarrow> position \<Rightarrow> position list list \<Rightarrow> int \<times> position list
     \<Rightarrow> error + (int \<times> position list)" where
  "scan_paths g p [] (points_earned, xyzs_included) = Inr (points_earned, xyzs_included)"
| "scan_paths g p ([] # paths) (points_earned, xyzs_included) = Inl IndexError"
| "scan_paths g p (((x', y', z') # rest) # paths) (points_earned, xyzs_included) =
     (if snd (snd p) < z' then scan_paths g p paths (points_earned, xyzs_included)
      else if p \<notin> set ((x', y', z') # rest) then
        scan_paths g p paths (points_earned, xyzs_included)
      else
        (case count_hits g ((x', y', z') # rest) (0, 0) of
           Inl e \<Rightarrow> Inl e
         | Inr (hits, special_hits) \<Rightarrow>
            scan_paths g p paths
              (if special_hits = SIZE then points_earned + SPECIAL_TICTACTOE_VALUE
               else if hits = SIZE then points_earned + TICTACTOE_VALUE
               else points_earned,
               if hits = SIZE then xyzs_included @ ((x', y', z') # rest)
               else xyzs_included)))"

definition handle_tictactoe :: "position \<Rightarrow> Game \<Rightarrow> (error + unit) \<times> signal list \<times> Game" where
  "handle_tictactoe p g =
     (case scan_paths g p calc_winning_paths (0, []) of
        Inl e \<Rightarrow> (Inl e, [], g)
      | Inr (points_earned, xyzs_included) \<Rightarrow>
         if points_earned \<noteq> 0 then
           (case scores g (current_player g) of
              None \<Rightarrow> (Inl KeyError, [], g)
            | Some s \<Rightarrow>
               (let g1 = g\<lparr>scores := (scores g)(current_player g \<mapsto> s + points_earned)\<rparr>;
                    plural = (if points_earned \<noteq> 1 then ''s'' else '''');
                    g2 = g1\<lparr>status := status g1 @ [STATUS_POINTS_EARNED points_earned plural]\<rparr>
                in (Inr (), [SCORE_CHANGED (Some xyzs_included)], g2)))
         else (Inr (), [], g))"

subsection \<open>Moves\<close>

text \<open>
  \<open>move\<close> returns the outcome (\<open>Inr ()\<close> when the method returns, \<open>Inl e\<close> when it
  raises \<open>e\<close>), the signals sent during the call, and the game as the call leaves it.
  The square object found in the board is stored under one key only, so assigning its
  attributes is an update of the board at that key.
\<close>

definition finish_move :: "signal list \<Rightarrow> Game \<Rightarrow> (error + unit) \<times> signal list \<times> Game" where
  "finish_move sent g =
     (let g1 = g\<lparr>move_count := move_count g + 1\<rparr>;
          sent1 = sent @ [PLAYER_CHANGED];
          new_level = (move_count g1 mod SQUARES_PER_LEVEL = 0);
          sent2 = (if new_level then sent1 @ [LEVEL_CHANGED] else sent1);
          g2 = (if 0 < move_count g1 \<and> \<not> done_game g1 \<and> new_level
                then g1\<lparr>status := status g1 @ [STATUS_ONLY_UP]\<rparr> else g1)
      in if done_game g2 then
           (case winner g2 of
              Inl e \<Rightarrow> (Inl e, sent2, g2)
            | Inr None \<Rightarrow>
               (Inr (), sent2 @ [STATUS_CHANGED], g2\<lparr>status := status g2 @ [STATUS_TIE]\<rparr>)
            | Inr (Some w) \<Rightarrow>
               (Inr (), sent2 @ [STATUS_CHANGED],
                g2\<lparr>status := status g2 @ [STATUS_WINNER w]\<rparr>))
         else (Inr (), sent2 @ [STATUS_CHANGED], g2))"

definition move :: "position \<Rightarrow> Game \<Rightarrow> (error + unit) \<times> signal list \<times> Game" where
  "move p g =
     (case p of (x, y, z) \<Rightarrow>
        if z \<noteq> current_level g then (Inl (ValueError ''Wrong level''), [], g)
        else
          (case board g (x, y, z) of
             None \<Rightarrow> (Inl KeyError, [], g)
           | Some square \<Rightarrow>
              if \<not> (val square = BLANK) then (Inl (ValueError ''Square taken''), [], g)
              else
                (let g1 = g\<lparr>status := []\<rparr>;
                     square1 = square\<lparr>val := current_player g1\<rparr>;
                     g2 = g1\<lparr>board := (board g1)((x, y, z) \<mapsto> square1)\<rparr>;
                     square2 = square1\<lparr>special := current_move_special g2\<rparr>;
                     g3 = g2\<lparr>board := (board g2)((x, y, z) \<mapsto> square2)\<rparr>
                 in (case handle_tictactoe (x, y, z) g3 of
                       (Inl e, sent, g4) \<Rightarrow> (Inl e, BOARD_CHANGED # sent, g4)
                     | (Inr u, sent, g4) \<Rightarrow> finish_move (BOARD_CHANGED # sent) g4))))"

subsection \<open>Construction and reset\<close>

text \<open>
  \<open>random.choice\<close> picks an element of a non-empty list; the random source is the
  parameter \<open>r\<close>.
\<close>

definition random_choice :: "nat \<Rightarrow> 'a list \<Rightarrow> 'a" where
  "random_choice r xs = xs ! (r mod length xs)"

definition reset :: "mark option \<Rightarrow> nat \<Rightarrow> Game \<Rightarrow> signal list \<times> Game" where
  "reset first_player_arg r g =
     (let fp = (case first_player_arg of
                  None \<Rightarrow> random_choice r [RED, BLUE]
                | Some player \<Rightarrow> player);
          g1 = g\<lparr>first_player := fp\<rparr>;
          g2 = g1\<lparr>board := (\<lambda>k. map_option Square_reset (board g1 k))\<rparr>;
          g3 = g2\<lparr>scores := ((scores g2)(RED \<mapsto> 0))(BLUE \<mapsto> 0)\<rparr>;
          g4 = g3\<lparr>move_count := 0\<rparr>;
          g5 = g4\<lparr>status := []\<rparr>
      in ([LEVEL_CHANGED, SCORE_CHANGED None, BOARD_CHANGED, PLAYER_CHANGED, STATUS_CHANGED],
          g5))"

text \<open>
  \<open>__init__\<close> fills the board with one fresh square per position and creates the empty
  score dictionary; \<open>new_game\<close> is the object at that point. It then calls \<open>reset\<close>,
  which assigns every other attribute, so the values given to them here are overwritten.
\<close>

definition new_game :: Game where
  "new_game =
     \<lparr>board = map_of (map (\<lambda>p. (p, Square_init p)) iter_xyz),
      scores = Map.empty,
      move_count = 0,
      first_player = BLANK,
      status = []\<rparr>"

definition Game_init :: "mark option \<Rightarrow> nat \<Rightarrow> signal list \<times> Game" where
  "Game_init first_player_arg r = reset first_player_arg r new_game"

section \<open>Notions for stating the properties\<close>

subsection \<open>Reading a cell\<close>

text \<open>
  The occupant of a cell is the \<open>value\<close> of its square, its special flag the \<open>special\<close>
  attribute; both are absent at a position that is not a key of the board. A cell is
  occupied when its value is not \<open>BLANK\<close>, the test \<open>move\<close> itself makes.
\<close>

definition occupant :: "Game \<Rightarrow> position \<Rightarrow> mark option" where
  "occupant g q = map_option val (board g q)"

definition is_special :: "Game \<Rightarrow> position \<Rightarrow> bool" where
  "is_special g q = (map_option special (board g q) = Some True)"

definition occupied :: "Game \<Rightarrow> position \<Rightarrow> bool" where
  "occupied g q = (case board g q of None \<Rightarrow> False | Some sq \<Rightarrow> val sq \<noteq> BLANK)"

subsection \<open>What the scoring loops compute\<close>

text \<open>
  A square counts as a hit when it holds the mark of the current player. For one path,
  \<open>path_points\<close> and \<open>path_included\<close> are what one iteration of the loop of
  \<open>_handle_tictactoe\<close> adds to \<open>points_earned\<close> and to \<open>xyzs_included\<close>;
  \<open>points\<close> is the sum over the table.
\<close>

definition owned :: "Game \<Rightarrow> position \<Rightarrow> bool" where
  "owned g q = (occupant g q = Some (current_player g))"

definition path_points :: "Game \<Rightarrow> position \<Rightarrow> position list \<Rightarrow> int" where
  "path_points g p path =
     (if snd (snd p) < snd (snd (hd path)) \<or> p \<notin> set path then 0
      else if int (length (filter (\<lambda>q. owned g q \<and> is_special g q) path)) = SIZE
        then SPECIAL_TICTACTOE_VALUE
      else if int (length (filter (owned g) path)) = SIZE then TICTACTOE_VALUE
      else 0)"

definition path_included :: "Game \<Rightarrow> position \<Rightarrow> position list \<Rightarrow> position list" where
  "path_included g p path =
     (if snd (snd p) < snd (snd (hd path)) \<or> p \<notin> set path then []
      else if int (length (filter (owned g) path)) = SIZE then path else [])"

definition points :: "Game \<Rightarrow> position \<Rightarrow> int" where
  "points g p = sum_list (map (path_points g p) calc_winning_paths)"

text \<open>
  The game after the two assignments \<open>square.value = self.current_player\<close> and
  \<open>square.special = self.current_move_special\<close> of \<open>move\<close>.
\<close>

definition fill :: "position \<Rightarrow> Game \<Rightarrow> Game" where
  "fill p g =
     g\<lparr>board := (board g)(p \<mapsto>
          (the (board g p))\<lparr>val := current_player g, special := current_move_special g\<rparr>)\<rparr>"

text \<open>
  The lines completed by the mark \<open>m\<close> through the position \<open>p\<close>, each taken once as
  a set of positions, and the value of a completed line.
\<close>

definition completed_lines :: "Game \<Rightarrow> mark \<Rightarrow> position \<Rightarrow> position set set" where
  "completed_lines g m p =
     {line \<in> set ` set calc_winning_paths. p \<in> line \<and> (\<forall>q\<in>line. occupant g q = Some m)}"

definition line_value :: "Game \<Rightarrow> position set \<Rightarrow> int" where
  "line_value g line =
     (if \<forall>q\<in>line. is_special g q then SPECIAL_TICTACTOE_VALUE else TICTACTOE_VALUE)"

subsection \<open>Reachable games\<close>

text \<open>
  The first player is chosen at random when \<open>first_player\<close> is \<open>None\<close>, and is one of
  the two players when it is given. A game is reachable when it results from the
  constructor followed by any calls of \<open>reset\<close> and \<open>move\<close>, whether the move returns
  or raises.
\<close>

definition player_arg :: "mark option \<Rightarrow> bool" where
  "player_arg a \<longleftrightarrow> a = None \<or> a = Some RED \<or> a = Some BLUE"

inductive reachable :: "Game \<Rightarrow> bool" where
  reachable_init: "player_arg a \<Longrightarrow> reachable (snd (Game_init a r))"
| reachable_reset: "reachable g \<Longrightarrow> player_arg a \<Longrightarrow> reachable (snd (reset a r g))"
| reachable_move: "reachable g \<Longrightarrow> reachable (snd (snd (move p g)))"

text \<open>
  The invariant of reachable games: the board holds exactly the 27 squares, both scores
  exist, the first player is a player, and no square above the current level is taken.
\<close>

definition valid :: "Game \<Rightarrow> bool" where
  "valid g \<longleftrightarrow>
     dom (board g) = set iter_xyz \<and>
     scores g RED \<noteq> None \<and> scores g BLUE \<noteq> None \<and>
     first_player g \<in> {RED, BLUE} \<and>
     0 \<le> move_count g \<and>
     (\<forall>q. current_level g < snd (snd q) \<longrightarrow> occupant g q \<noteq> Some RED \<and> occupant g q \<noteq> Some BLUE)"

text \<open>
  A game as \<open>reset\<close> leaves it: valid, no move made, every cell empty and not special.
\<close>

definition fresh :: "Game \<Rightarrow> bool" where
  "fresh g \<longleftrightarrow> valid g \<and> move_count g = 0 \<and> (\<forall>q. \<not> occupied g q) \<and> (\<forall>q. \<not> is_special g q)"

subsection \<open>Sequences of moves\<close>

text \<open>
  \<open>moves ps g\<close> makes the moves \<open>ps\<close> in turn and is \<open>None\<close> as soon as one of
  them raises; \<open>play ps g\<close> makes them whatever their outcome.
\<close>

fun moves :: "position list \<Rightarrow> Game \<Rightarrow> Game option" where
  "moves [] g = Some g"
| "moves (p # ps) g =
     (case move p g of
        (Inl e, sent, g') \<Rightarrow> None
      | (Inr u, sent, g') \<Rightarrow> moves ps g')"

fun play :: "position list \<Rightarrow> Game \<Rightarrow> Game" where
  "play [] g = g"
| "play (p # ps) g = play ps (snd (snd (move p g)))"

subsection \<open>The names of the signals\<close>

definition signal_name :: "signal \<Rightarrow> string" where
  "signal_name s =
     (case s of
        LEVEL_CHANGED \<Rightarrow> ''LEVEL CHANGED''
      | SCORE_CHANGED xyzs_included \<Rightarrow> ''SCORE CHANGED''
      | BOARD_CHANGED \<Rightarrow> ''BOARD CHANGED''
      | PLAYER_CHANGED \<Rightarrow> ''PLAYER CHANGED''
      | STATUS_CHANGED \<Rightarrow> ''STATUS CHANGED'')"

subsection \<open>Concrete games and paths\<close>

text \<open>
  A new game that RED begins; the same game after two moves of each player, where RED
  holds \<open>(0, 0, 0)\<close> and \<open>(1, 0, 0)\<close> and is to move; a full game of 27 moves, level
  by level; the first two of its moves; and two paths of the table.
\<close>

definition start :: Game where
  "start = snd (Game_init (Some RED) 0)"

definition row_game :: Game where
  "row_game = play [(0, 0, 0), (0, 1, 0), (1, 0, 0), (1, 1, 0)] start"

definition full_game :: "position list" where
  "full_game =
     [(0,0,0), (1,0,0), (2,0,0), (0,1,0), (1,1,0), (2,1,0), (0,2,0), (1,2,0), (2,2,0),
      (0,0,1), (1,0,1), (2,0,1), (0,1,1), (1,1,1), (2,1,1), (0,2,1), (1,2,1), (2,2,1),
      (0,0,2), (1,0,2), (2,0,2), (0,1,2), (1,1,2), (2,1,2), (0,2,2), (1,2,2), (2,2,2)]"

definition two_moves :: "position list" where
  "two_moves = [(0, 0, 0), (1, 0, 0)]"

definition bottom_row :: "position list" where
  "bottom_row = [(0, 0, 0), (1, 0, 0), (2, 0, 0)]"

definition cube_diagonal :: "position list" where
  "cube_diagonal = [(2, 2, 2), (1, 1, 1), (0, 0, 0)]"

section \<open>Properties of the model\<close>

subsection \<open>The scoring loops\<close>

lemma count_hits_eq:
  "set path \<subseteq> dom (board g) \<Longrightarrow>
   count_hits g path (h, s) =
     Inr (h + int (length (filter (owned g) path)),
          s + int (length (filter (\<lambda>q. owned g q \<and> is_special g q) path)))"
proof (induction path arbitrary: h s)
  case Nil
  then show ?case by simp
next
  case (Cons q qs)
  from Cons.prems obtain sq where sq: "board g q = Some sq" by auto
  from Cons.prems have sub: "set qs \<subseteq> dom (board g)" by simp
  show ?case
    using sq Cons.IH [OF sub]
    by (simp add: owned_def occupant_def is_special_def)
qed

lemma scan_paths_eq:
  "\<forall>path\<in>set paths. path \<noteq> [] \<and> set path \<subseteq> dom (board g) \<Longrightarrow>
   scan_paths g p paths (pts, inc) =
     Inr (pts + sum_list (map (path_points g p) paths),
          inc @ concat (map (path_included g p) paths))"
proof (induction paths arbitrary: pts inc)
  case Nil
  then show ?case by simp
next
  case (Cons path paths)
  from Cons.prems obtain x' y' z' rest where path: "path = (x', y', z') # rest"
    by (cases path) auto
  from Cons.prems have sub: "set path \<subseteq> dom (board g)" by simp
  from Cons.prems have rest: "\<forall>path\<in>set paths. path \<noteq> [] \<and> set path \<subseteq> dom (board g)"
    by simp
  note IH = Cons.IH [OF rest]
  show ?case
    using count_hits_eq [OF sub, of 0 0] 
    by (simp add: path IH path_points_def path_included_def)
qed

lemma paths_in_board_aux:
  "list_all (\<lambda>path. path \<noteq> [] \<and> list_all (\<lambda>q. q \<in> set iter_xyz) path) calc_winning_paths"
  by code_simp

lemma paths_in_board:
  "path \<in> set calc_winning_paths \<Longrightarrow> path \<noteq> [] \<and> set path \<subseteq> set iter_xyz"
  using paths_in_board_aux by (auto simp: list_all_iff)

lemma current_player_cases:
  "first_player g \<in> {RED, BLUE} \<Longrightarrow> current_player g \<in> {RED, BLUE}"
  by (auto simp: current_player_def other_player_def Let_def)

lemma scan_calc_winning_paths:
  assumes "dom (board g) = set iter_xyz"
  shows "scan_paths g p calc_winning_paths (0, []) =
      Inr (points g p, concat (map (path_included g p) calc_winning_paths))"
proof -
  have ok: "\<forall>path\<in>set calc_winning_paths. path \<noteq> [] \<and> set path \<subseteq> dom (board g)"
    using paths_in_board assms by simp
  show ?thesis
    using scan_paths_eq [OF ok, of p 0 "[]"] by (simp add: points_def)
qed

subsection \<open>What \<open>_handle_tictactoe\<close> and the end of \<open>move\<close> change\<close>

lemma handle_tictactoe_frame:
  "board (snd (snd (handle_tictactoe p g))) = board g"
  "move_count (snd (snd (handle_tictactoe p g))) = move_count g"
  "first_player (snd (snd (handle_tictactoe p g))) = first_player g"
  "m \<noteq> current_player g \<Longrightarrow> scores (snd (snd (handle_tictactoe p g))) m = scores g m"
  by (simp_all add: handle_tictactoe_def Let_def split: sum.splits prod.splits option.splits)

lemma handle_tictactoe_ok:
  assumes "dom (board g) = set iter_xyz" and "scores g (current_player g) = Some s"
  shows "fst (handle_tictactoe p g) = Inr ()"
    and "scores (snd (snd (handle_tictactoe p g))) (current_player g) = Some (s + points g p)"
  using assms scan_calc_winning_paths [OF assms(1), of p]
  by (simp_all add: handle_tictactoe_def Let_def)

lemma finish_move_frame:
  "board (snd (snd (finish_move sent g))) = board g"
  "scores (snd (snd (finish_move sent g))) = scores g"
  "first_player (snd (snd (finish_move sent g))) = first_player g"
  "move_count (snd (snd (finish_move sent g))) = move_count g + 1"
  by (simp_all add: finish_move_def Let_def split: sum.splits option.splits)

lemma finish_move_ok:
  assumes "scores g RED \<noteq> None" and "scores g BLUE \<noteq> None"
  shows "fst (finish_move sent g) = Inr ()"
  using assms
  by (auto simp: finish_move_def winner_def Let_def split: sum.splits option.splits)

subsection \<open>Only the two guards of \<open>move\<close> raise \<open>ValueError\<close>\<close>

lemma count_hits_no_ValueError: "count_hits g path acc \<noteq> Inl (ValueError m)"
  by (induction g path acc rule: count_hits.induct) (auto split: option.splits)

lemma scan_paths_no_ValueError: "scan_paths g p paths acc \<noteq> Inl (ValueError m)"
proof (induction paths arbitrary: acc)
  case Nil
  show ?case by (cases acc) simp
next
  case (Cons path paths)
  obtain pts inc where acc: "acc = (pts, inc)" by (cases acc)
  show ?case
  proof (cases path)
    case Nil
    then show ?thesis by (simp add: acc)
  next
    case (Cons q rest)
    obtain x' y' z' where q: "q = (x', y', z')" by (cases q)
    show ?thesis
      using Cons.IH count_hits_no_ValueError [of g path "(0, 0)" m]
      by (auto simp add: acc Cons q simp del: count_hits.simps split: sum.splits prod.splits)
  qed
qed

lemma handle_tictactoe_no_ValueError: "fst (handle_tictactoe p g) \<noteq> Inl (ValueError m)"
  using scan_paths_no_ValueError [of g p calc_winning_paths "(0, [])" m]
  by (auto simp: handle_tictactoe_def Let_def split: sum.splits prod.splits option.splits)

lemma finish_move_no_ValueError: "fst (finish_move sent g) \<noteq> Inl (ValueError m)"
  by (auto simp: finish_move_def winner_def Let_def split: sum.splits option.splits)

lemma move_unfold:
  assumes "snd (snd p) = current_level g" and "board g p = Some sq" and "val sq = BLANK"
  shows "move p g =
     (case handle_tictactoe p (fill p (g\<lparr>status := []\<rparr>)) of
        (Inl e, sent, g4) \<Rightarrow> (Inl e, BOARD_CHANGED # sent, g4)
      | (Inr u, sent, g4) \<Rightarrow> finish_move (BOARD_CHANGED # sent) g4)"
  using assms
  by (cases p)
     (simp add: move_def fill_def Let_def current_player_def current_move_special_def)

lemma move_fail_unchanged:
  assumes "fst (move p g) = Inl (ValueError m)"
  shows "move p g = (Inl (ValueError m), [], g)"
proof (cases "snd (snd p) = current_level g \<and> (\<exists>sq. board g p = Some sq \<and> val sq = BLANK)")
  case True
  then obtain sq where sq: "board g p = Some sq" "val sq = BLANK"
    and lv: "snd (snd p) = current_level g" by blast
  have False
    using assms handle_tictactoe_no_ValueError [of p "fill p (g\<lparr>status := []\<rparr>)" m]
      finish_move_no_ValueError
    unfolding move_unfold [OF lv sq]
    by (auto split: prod.splits sum.splits)
  then show ?thesis ..
next
  case False
  then show ?thesis
    using assms by (cases p) (auto simp: move_def split: option.splits if_splits)
qed

subsection \<open>A move that passes both guards\<close>

lemma points_cong:
  assumes "board g' = board g" and "move_count g' = move_count g"
    and "first_player g' = first_player g"
  shows "points g' p = points g p"
proof -
  have o: "owned g' = owned g"
    using assms by (simp add: owned_def occupant_def current_player_def fun_eq_iff)
  have i: "is_special g' = is_special g"
    using assms by (simp add: is_special_def fun_eq_iff)
  have "path_points g' p = path_points g p"
    unfolding path_points_def o i ..
  then show ?thesis by (simp add: points_def)
qed

lemma move_success_guard:
  assumes "fst (move p g) = Inr ()"
  shows "snd (snd p) = current_level g \<and> (\<exists>sq. board g p = Some sq \<and> val sq = BLANK)"
  using assms by (cases p) (auto simp: move_def split: option.splits if_splits)

lemma move_ok:
  assumes v: "valid g" and lv: "snd (snd p) = current_level g"
    and sq: "board g p = Some sq" and bl: "val sq = BLANK"
  shows "fst (move p g) = Inr ()"
    and "board (snd (snd (move p g))) =
           (board g)(p \<mapsto> sq\<lparr>val := current_player g, special := current_move_special g\<rparr>)"
    and "scores (snd (snd (move p g))) =
           (scores g)(current_player g \<mapsto>
              the (scores g (current_player g)) + points (fill p g) p)"
    and "move_count (snd (snd (move p g))) = move_count g + 1"
    and "first_player (snd (snd (move p g))) = first_player g"
proof -
  define g3 where "g3 = fill p (g\<lparr>status := []\<rparr>)"
  have cp3: "current_player g3 = current_player g"
    by (simp add: g3_def fill_def current_player_def)
  have b3: "board g3 =
      (board g)(p \<mapsto> sq\<lparr>val := current_player g, special := current_move_special g\<rparr>)"
    using sq by (simp add: g3_def fill_def current_player_def current_move_special_def)
  have dom3: "dom (board g3) = set iter_xyz"
    using v sq unfolding b3 valid_def by auto
  have "current_player g \<in> {RED, BLUE}"
    using v current_player_cases by (simp add: valid_def)
  then obtain s where s: "scores g (current_player g) = Some s"
    using v by (auto simp: valid_def)
  have s3: "scores g3 (current_player g3) = Some s"
    using s by (simp add: cp3) (simp add: g3_def fill_def)
  have pts: "points g3 p = points (fill p g) p"
    by (rule points_cong) (simp_all add: g3_def fill_def current_player_def current_move_special_def)
  obtain r sent g4 where h: "handle_tictactoe p g3 = (r, sent, g4)"
    by (cases "handle_tictactoe p g3")
  have r: "r = Inr ()"
    using handle_tictactoe_ok(1) [OF dom3 s3, of p] h by simp
  have sc4: "scores g4 (current_player g) = Some (s + points (fill p g) p)"
    using handle_tictactoe_ok(2) [OF dom3 s3, of p] h by (simp add: cp3 pts)
  have sc4': "\<And>m. m \<noteq> current_player g \<Longrightarrow> scores g4 m = scores g m"
    using handle_tictactoe_frame(4) [of _ g3 p] h by (simp add: cp3) (simp add: g3_def fill_def)
  have b4: "board g4 = board g3" and mc4: "move_count g4 = move_count g"
    and fp4: "first_player g4 = first_player g"
    using handle_tictactoe_frame(1-3) [of p g3] h by (simp_all add: g3_def fill_def)
  have mv: "move p g = finish_move (BOARD_CHANGED # sent) g4"
    using move_unfold [OF lv sq bl] h r by (simp add: g3_def)
  have sc4_eq: "scores g4 =
      (scores g)(current_player g \<mapsto> the (scores g (current_player g)) + points (fill p g) p)"
    using sc4 sc4' s by (auto simp: fun_eq_iff)
  have "scores g4 RED \<noteq> None" "scores g4 BLUE \<noteq> None"
    using v unfolding sc4_eq valid_def by auto
  then show "fst (move p g) = Inr ()"
    unfolding mv by (rule finish_move_ok)
  show "board (snd (snd (move p g))) =
           (board g)(p \<mapsto> sq\<lparr>val := current_player g, special := current_move_special g\<rparr>)"
    unfolding mv by (simp add: finish_move_frame b4 b3)
  show "scores (snd (snd (move p g))) =
           (scores g)(current_player g \<mapsto>
              the (scores g (current_player g)) + points (fill p g) p)"
    unfolding mv by (simp add: finish_move_frame sc4_eq)
  show "move_count (snd (snd (move p g))) = move_count g + 1"
    unfolding mv by (simp add: finish_move_frame mc4)
  show "first_player (snd (snd (move p g))) = first_player g"
    unfolding mv by (simp add: finish_move_frame fp4)
qed

lemma move_not_ok:
  assumes "\<not> (snd (snd p) = current_level g \<and> (\<exists>sq. board g p = Some sq \<and> val sq = BLANK))"
  shows "snd (snd (move p g)) = g"
  using assms by (cases p) (auto simp: move_def split: option.splits)

subsection \<open>Construction, reset and the invariant\<close>

lemma Game_init_new_game: "Game_init a r = reset a r new_game"
  by (simp add: Game_init_def)

lemma dom_new_game: "dom (board new_game) = set iter_xyz"
  by (auto simp: new_game_def dom_map_of_conv_image_fst image_iff)

lemma random_choice_player: "random_choice r [RED, BLUE] \<in> {RED, BLUE}"
proof -
  have "random_choice r [RED, BLUE] \<in> set [RED, BLUE]"
    unfolding random_choice_def by (rule nth_mem) simp
  then show ?thesis by simp
qed

lemma reset_fields:
  "board (snd (reset a r g)) = (\<lambda>k. map_option Square_reset (board g k))"
  "scores (snd (reset a r g)) = ((scores g)(RED \<mapsto> 0))(BLUE \<mapsto> 0)"
  "move_count (snd (reset a r g)) = 0"
  "status (snd (reset a r g)) = []"
  "first_player (snd (reset a r g)) =
     (case a of None \<Rightarrow> random_choice r [RED, BLUE] | Some player \<Rightarrow> player)"
  by (simp_all add: reset_def Let_def)

lemma reset_occupant:
  "occupant (snd (reset a r g)) q = (if q \<in> dom (board g) then Some BLANK else None)"
  "\<not> is_special (snd (reset a r g)) q"
  by (auto simp: occupant_def is_special_def reset_fields Square_reset_def)

lemma valid_reset:
  assumes "dom (board g) = set iter_xyz" and "player_arg a"
  shows "valid (snd (reset a r g))"
proof -
  have "first_player (snd (reset a r g)) \<in> {RED, BLUE}"
    using assms(2) random_choice_player [of r]
    by (auto simp: reset_fields player_arg_def)
  moreover have "dom (board (snd (reset a r g))) = set iter_xyz"
    using assms(1) by (auto simp: reset_fields dom_def)
  ultimately show ?thesis
    by (simp add: valid_def reset_occupant) (simp add: reset_fields)
qed

lemma current_level_mono:
  "move_count g' = move_count g + 1 \<Longrightarrow> current_level g \<le> current_level g'"
  by (simp add: current_level_def zdiv_mono1 SQUARES_PER_LEVEL_def SIZE_def)

lemma valid_move:
  assumes v: "valid g"
  shows "valid (snd (snd (move p g)))"
proof (cases "snd (snd p) = current_level g \<and> (\<exists>sq. board g p = Some sq \<and> val sq = BLANK)")
  case False
  then show ?thesis using v by (simp add: move_not_ok)
next
  case True
  then obtain sq where lv: "snd (snd p) = current_level g"
    and sq: "board g p = Some sq" and bl: "val sq = BLANK" by blast
  let ?g' = "snd (snd (move p g))"
  note ok = move_ok [OF v lv sq bl]
  have "dom (board ?g') = set iter_xyz"
    using v sq unfolding ok(2) valid_def by auto
  moreover have "scores ?g' RED \<noteq> None" "scores ?g' BLUE \<noteq> None"
    using v unfolding ok(3) valid_def by auto
  moreover have "first_player ?g' \<in> {RED, BLUE}"
    using v unfolding ok(5) valid_def by simp
  moreover have "0 \<le> move_count ?g'"
    using v unfolding ok(4) valid_def by simp
  moreover have "\<forall>q. current_level ?g' < snd (snd q) \<longrightarrow>
      occupant ?g' q \<noteq> Some RED \<and> occupant ?g' q \<noteq> Some BLUE"
  proof (intro allI impI)
    fix q :: position
    assume above: "current_level ?g' < snd (snd q)"
    have le: "current_level g \<le> current_level ?g'"
      using ok(4) by (rule current_level_mono)
    then have "q \<noteq> p" using above lv by auto
    then have "occupant ?g' q = occupant g q"
      by (simp add: occupant_def ok(2))
    moreover have "current_level g < snd (snd q)" using le above by simp
    ultimately show "occupant ?g' q \<noteq> Some RED \<and> occupant ?g' q \<noteq> Some BLUE"
      using v by (cases q) (auto simp: valid_def)
  qed
  ultimately show ?thesis by (simp add: valid_def)
qed

lemma reachable_valid: "reachable g \<Longrightarrow> valid g"
proof (induction rule: reachable.induct)
  case (reachable_init a r)
  then show ?case
    by (simp add: Game_init_new_game valid_reset dom_new_game)
next
  case (reachable_reset g a r)
  then have "dom (board g) = set iter_xyz" by (simp add: valid_def)
  then show ?case using reachable_reset.hyps(2) by (rule valid_reset)
next
  case (reachable_move g p)
  then show ?case by (simp add: valid_move)
qed

subsection \<open>The points of a move as a sum over completed lines\<close>

lemma length_filter_full:
  "length (filter P xs) = length xs \<longleftrightarrow> (\<forall>x\<in>set xs. P x)"
proof
  assume "length (filter P xs) = length xs"
  then show "\<forall>x\<in>set xs. P x"
    using length_filter_less [of _ xs P] by fastforce
qed simp

lemma paths_length_aux: "list_all (\<lambda>path. length path = 3) calc_winning_paths"
  by code_simp

lemma paths_length: "path \<in> set calc_winning_paths \<Longrightarrow> int (length path) = SIZE"
  using paths_length_aux by (auto simp: list_all_iff SIZE_def)

lemma paths_distinct_sets: "distinct (map set calc_winning_paths)"
  by code_simp

lemma path_points_completed:
  assumes path: "path \<in> set calc_winning_paths"
    and above: "\<forall>q. snd (snd p) < snd (snd q) \<longrightarrow> \<not> owned g q"
  shows "path_points g p path =
     (if p \<in> set path \<and> (\<forall>q\<in>set path. owned g q) then line_value g (set path) else 0)"
proof -
  have len: "int (length path) = SIZE" using path by (rule paths_length)
  have ne: "path \<noteq> []" using path paths_in_board by blast
  have hits: "int (length (filter (owned g) path)) = SIZE \<longleftrightarrow> (\<forall>q\<in>set path. owned g q)"
    using length_filter_full [of "owned g" path] len by auto
  have shits: "int (length (filter (\<lambda>q. owned g q \<and> is_special g q) path)) = SIZE
      \<longleftrightarrow> (\<forall>q\<in>set path. owned g q \<and> is_special g q)"
    using length_filter_full [of "\<lambda>q. owned g q \<and> is_special g q" path] len by auto
  show ?thesis
  proof (cases "snd (snd p) < snd (snd (hd path))")
    case True
    then have "\<not> owned g (hd path)" using above by blast
    moreover have "hd path \<in> set path" using ne by simp
    ultimately have "\<not> (\<forall>q\<in>set path. owned g q)" by blast
    then show ?thesis using True by (auto simp: path_points_def)
  next
    case False
    then show ?thesis
      unfolding path_points_def hits shits line_value_def
      by (auto simp: SPECIAL_TICTACTOE_VALUE_def TICTACTOE_VALUE_def)
  qed
qed

lemma points_completed:
  assumes above: "\<forall>q. snd (snd p) < snd (snd q) \<longrightarrow> \<not> owned g q"
  shows "points g p = (\<Sum>line\<in>completed_lines g (current_player g) p. line_value g line)"
proof -
  let ?C = "\<lambda>line. p \<in> line \<and> (\<forall>q\<in>line. owned g q)"
  let ?h = "\<lambda>line. if ?C line then line_value g line else 0"
  have "points g p = sum_list (map (\<lambda>path. ?h (set path)) calc_winning_paths)"
    unfolding points_def
    by (rule arg_cong [where f = sum_list], rule map_cong [OF refl])
       (simp add: path_points_completed [OF _ above])
  also have "\<dots> = sum_list (map ?h (map set calc_winning_paths))"
    by (simp add: comp_def)
  also have "\<dots> = sum ?h (set (map set calc_winning_paths))"
    using paths_distinct_sets by (rule sum_list_distinct_conv_sum_set)
  also have "\<dots> = sum (line_value g) {line \<in> set (map set calc_winning_paths). ?C line}"
    by (simp add: sum.inter_filter)
  also have "{line \<in> set (map set calc_winning_paths). ?C line} =
      completed_lines g (current_player g) p"
    by (auto simp: completed_lines_def owned_def)
  finally show ?thesis .
qed

subsection \<open>Positions of the board\<close>

lemma in_range_iter_xyz:
  "(x, y, z) \<in> set iter_xyz \<longleftrightarrow> 0 \<le> x \<and> x \<le> 2 \<and> 0 \<le> y \<and> y \<le> 2 \<and> 0 \<le> z \<and> z \<le> 2"
  by (auto simp: iter_xyz_def RANGE_SIZE_def SIZE_def image_iff)

lemma fill_fields:
  "current_player (fill p g) = current_player g"
  "move_count (fill p g) = move_count g"
  "scores (fill p g) = scores g"
  by (simp_all add: fill_def current_player_def)

subsection \<open>Sequences of moves after a reset\<close>

lemma fresh_reset:
  assumes "dom (board g) = set iter_xyz" and "player_arg a"
  shows "fresh (snd (reset a r g))"
  using valid_reset [OF assms]
  by (auto simp: fresh_def reset_fields occupied_def is_special_def Square_reset_def
        split: option.splits)

lemma moves_snoc:
  "moves (ps @ [p]) g0 = Some g \<longleftrightarrow>
     (\<exists>g1. moves ps g0 = Some g1 \<and> fst (move p g1) = Inr () \<and> snd (snd (move p g1)) = g)"
  by (induction ps arbitrary: g0) (auto split: prod.splits sum.splits)

lemma moves_take:
  "moves ps g0 = Some g \<Longrightarrow> \<exists>gi. moves (take i ps) g0 = Some gi"
proof (induction ps arbitrary: g0 i)
  case Nil
  then show ?case by simp
next
  case (Cons p ps)
  show ?case
  proof (cases i)
    case 0
    then show ?thesis by simp
  next
    case (Suc j)
    then show ?thesis
      using Cons.prems Cons.IH [of _ j] by (auto split: prod.splits sum.splits)
  qed
qed

lemma special_offsets:
  "n mod SQUARES_PER_LEVEL \<in> set SPECIAL_SQUARES \<longleftrightarrow> n mod 9 \<in> {1, 2, 6, 7}"
  by (simp add: SQUARES_PER_LEVEL_def SIZE_def SPECIAL_SQUARES_def)

lemma nth_snoc_ex_same:
  assumes "p \<notin> set ps"
  shows "(\<exists>i<length (ps @ [p]). (ps @ [p]) ! i = p \<and> P i) \<longleftrightarrow> P (length ps)"
proof
  assume "\<exists>i<length (ps @ [p]). (ps @ [p]) ! i = p \<and> P i"
  then obtain i where i: "i < length (ps @ [p])" "(ps @ [p]) ! i = p" "P i"
    by (elim exE conjE)
  have "i = length ps"
  proof (rule ccontr)
    assume "i \<noteq> length ps"
    then have lt: "i < length ps" using i(1) by simp
    then have "ps ! i = p" using i(2) by (simp add: nth_append)
    then have "p \<in> set ps" using lt nth_mem [of i ps] by simp
    then show False using assms by simp
  qed
  then show "P (length ps)" using i(3) by simp
next
  assume "P (length ps)"
  then show "\<exists>i<length (ps @ [p]). (ps @ [p]) ! i = p \<and> P i"
    by (intro exI [of _ "length ps"]) simp
qed

lemma nth_snoc_ex_other:
  assumes "q \<noteq> p"
  shows "(\<exists>i<length (ps @ [p]). (ps @ [p]) ! i = q \<and> P i) \<longleftrightarrow>
         (\<exists>i<length ps. ps ! i = q \<and> P i)"
proof
  assume "\<exists>i<length (ps @ [p]). (ps @ [p]) ! i = q \<and> P i"
  then obtain i where i: "i < length (ps @ [p])" "(ps @ [p]) ! i = q" "P i"
    by (elim exE conjE)
  have "i \<noteq> length ps" using i(2) assms by auto
  then have lt: "i < length ps" using i(1) by simp
  then have "ps ! i = q" using i(2) by (simp add: nth_append)
  then show "\<exists>i<length ps. ps ! i = q \<and> P i"
    using lt i(3) by (intro exI [of _ i]) simp
next
  assume "\<exists>i<length ps. ps ! i = q \<and> P i"
  then obtain i where i: "i < length ps" "ps ! i = q" "P i"
    by (elim exE conjE)
  then show "\<exists>i<length (ps @ [p]). (ps @ [p]) ! i = q \<and> P i"
    by (intro exI [of _ i]) (simp add: nth_append)
qed

lemma run_inv:
  assumes "fresh g0" and "moves ps g0 = Some g"
  shows "valid g \<and> move_count g = int (length ps) \<and> distinct ps \<and> set ps \<subseteq> set iter_xyz \<and>
         (\<forall>q. occupied g q \<longleftrightarrow> q \<in> set ps) \<and>
         (\<forall>q. is_special g q \<longleftrightarrow> (\<exists>i<length ps. ps ! i = q \<and> int i mod 9 \<in> {1, 2, 6, 7}))"
  using assms(2)
proof (induction ps arbitrary: g rule: rev_induct)
  case Nil
  then show ?case using assms(1) by (simp add: fresh_def)
next
  case (snoc p ps)
  from snoc.prems obtain g1 where g1: "moves ps g0 = Some g1"
    and okp: "fst (move p g1) = Inr ()" and g: "g = snd (snd (move p g1))"
    unfolding moves_snoc by blast
  note IH = snoc.IH [OF g1]
  have v1: "valid g1" using IH by simp
  from okp obtain sq where lv: "snd (snd p) = current_level g1"
    and sq: "board g1 p = Some sq" and bl: "val sq = BLANK"
    using move_success_guard by blast
  note ok = move_ok [OF v1 lv sq bl]
  have cp: "current_player g1 \<noteq> BLANK"
    using v1 current_player_cases [of g1] by (auto simp: valid_def)
  have "\<not> occupied g1 p" using sq bl by (simp add: occupied_def)
  then have notin: "p \<notin> set ps" using IH by simp
  have inb: "p \<in> set iter_xyz" using v1 sq by (auto simp: valid_def)
  have occ1: "occupied g1 q \<longleftrightarrow> q \<in> set ps" for q
    using IH by blast
  have sp1: "is_special g1 q \<longleftrightarrow> (\<exists>i<length ps. ps ! i = q \<and> int i mod 9 \<in> {1, 2, 6, 7})"
    for q using IH by blast
  have mc1: "move_count g1 = int (length ps)" using IH by blast
  have occ: "occupied g q \<longleftrightarrow> q \<in> set (ps @ [p])" for q
  proof (cases "q = p")
    case True
    then show ?thesis using cp unfolding g by (simp add: occupied_def ok(2))
  next
    case False
    then have "occupied g q = occupied g1 q"
      unfolding g by (simp add: occupied_def ok(2))
    then show ?thesis using occ1 False by simp
  qed
  have sp: "is_special g q \<longleftrightarrow>
      (\<exists>i<length (ps @ [p]). (ps @ [p]) ! i = q \<and> int i mod 9 \<in> {1, 2, 6, 7})" for q
  proof (cases "q = p")
    case True
    have "is_special g p \<longleftrightarrow> move_count g1 mod 9 \<in> {1, 2, 6, 7}"
      unfolding g
      by (simp add: is_special_def ok(2) current_move_special_def special_offsets)
    also have "\<dots> \<longleftrightarrow> int (length ps) mod 9 \<in> {1, 2, 6, 7}"
      by (simp only: mc1)
    also have "\<dots> \<longleftrightarrow>
        (\<exists>i<length (ps @ [p]). (ps @ [p]) ! i = p \<and> int i mod 9 \<in> {1, 2, 6, 7})"
      using nth_snoc_ex_same [OF notin, where P = "\<lambda>i. int i mod 9 \<in> {1, 2, 6, 7}"]
      by (rule sym)
    finally show ?thesis unfolding True .
  next
    case False
    have "is_special g q \<longleftrightarrow> is_special g1 q"
      unfolding g using False by (simp add: is_special_def ok(2))
    also have "\<dots> \<longleftrightarrow> (\<exists>i<length ps. ps ! i = q \<and> int i mod 9 \<in> {1, 2, 6, 7})"
      by (rule sp1)
    also have "\<dots> \<longleftrightarrow>
        (\<exists>i<length (ps @ [p]). (ps @ [p]) ! i = q \<and> int i mod 9 \<in> {1, 2, 6, 7})"
      using nth_snoc_ex_other [OF False, where P = "\<lambda>i. int i mod 9 \<in> {1, 2, 6, 7}"]
      by (rule sym)
    finally show ?thesis .
  qed
  have "valid g" unfolding g using v1 by (rule valid_move)
  moreover have "move_count g = int (length (ps @ [p]))"
    unfolding g ok(4) using IH by simp
  moreover have "distinct (ps @ [p])" using IH notin by simp
  moreover have "set (ps @ [p]) \<subseteq> set iter_xyz" using IH inb by simp
  ultimately show ?case using occ sp by blast
qed

lemma iter_xyz_card: "card (set iter_xyz) = 27"
proof -
  have "distinct iter_xyz" by code_simp
  moreover have "length iter_xyz = 27" by code_simp
  ultimately show ?thesis by (simp add: distinct_card)
qed

subsection \<open>The concrete games\<close>

lemma reachable_play: "reachable g \<Longrightarrow> reachable (play ps g)"
  by (induction ps arbitrary: g) (auto intro: reachable_move)

lemma reachable_start: "reachable start"
  unfolding start_def by (rule reachable_init) (simp add: player_arg_def)

lemma reachable_row_game: "reachable row_game"
  unfolding row_game_def using reachable_start by (rule reachable_play)

lemma reachable_board: "reachable g \<Longrightarrow> dom (board g) = set iter_xyz"
  using reachable_valid [of g] by (simp add: valid_def)

subsection \<open>The first position of a path\<close>

lemma paths_top_first_aux:
  "list_all (\<lambda>path. path \<noteq> [] \<and>
      list_all (\<lambda>q. snd (snd q) \<le> snd (snd (hd path))) path) calc_winning_paths"
  by code_simp

lemma row_game_scores:
  "scores row_game RED = Some 0"
  "scores (snd (snd (move (2, 0, 0) row_game))) RED = Some 1"
  "current_player row_game = RED"
  by code_simp+

section \<open>The winning-path table\<close>

text \<open>
  C4. The winning-path table has exactly 49 entries, every entry has exactly \<open>SIZE\<close>
  positions, and no two entries are equal as sets of positions.
\<close>

theorem winning_paths_table:
  "length calc_winning_paths = 49 \<and>
   (\<forall>path\<in>set calc_winning_paths. int (length path) = SIZE) \<and>
   distinct (map set calc_winning_paths)"
proof -
  have "length calc_winning_paths = 49" by code_simp
  then show ?thesis using paths_length paths_distinct_sets by blast
qed

text \<open>
The bottom row of level 0 is an entry of the table, and it has \<open>SIZE\<close> positions.
\<close>

theorem winning_paths_table_witness:
  "bottom_row \<in> set calc_winning_paths \<and> int (length bottom_row) = SIZE"
proof -
  have h: "bottom_row \<in> set calc_winning_paths" by code_simp
  have all: "\<forall>path\<in>set calc_winning_paths. int (length path) = SIZE"
    using winning_paths_table by (elim conjE)
  show ?thesis using h bspec [OF all h] by (rule conjI)
qed

text \<open>
  C7. Every entry of the winning-path table begins with a position whose z coordinate
  is the maximum of the z coordinates of the entry.
\<close>

theorem winning_paths_top_first:
  "\<forall>path\<in>set calc_winning_paths.
     \<exists>p0 rest. path = p0 # rest \<and> (\<forall>q\<in>set path. snd (snd q) \<le> snd (snd p0))"
proof
  fix path
  assume "path \<in> set calc_winning_paths"
  then have ne: "path \<noteq> []"
    and le: "\<forall>q\<in>set path. snd (snd q) \<le> snd (snd (hd path))"
    using paths_top_first_aux by (simp_all add: list_all_iff)
  from ne have "path = hd path # tl path" by simp
  then show "\<exists>p0 rest. path = p0 # rest \<and> (\<forall>q\<in>set path. snd (snd q) \<le> snd (snd p0))"
    using le by blast
qed

text \<open>
The diagonal of the cube from \<open>(2, 2, 2)\<close> down to \<open>(0, 0, 0)\<close> is such an entry.
\<close>

theorem winning_paths_top_first_witness:
  "cube_diagonal \<in> set calc_winning_paths \<and>
   (\<exists>p0 rest. cube_diagonal = p0 # rest \<and>
      (\<forall>q\<in>set cube_diagonal. snd (snd q) \<le> snd (snd p0)))"
proof -
  have h: "cube_diagonal \<in> set calc_winning_paths" by code_simp
  show ?thesis using h bspec [OF winning_paths_top_first h] by (rule conjI)
qed

section \<open>The outcome of a move\<close>

text \<open>
  C1. In a reachable game, for every position \<open>(x, y, z)\<close> with \<open>x\<close>, \<open>y\<close>, \<open>z\<close> in
  \<open>[0, 2]\<close>: \<open>move\<close> raises the wrong-level error if and only if \<open>z\<close> is not the
  current level; it raises the cell-taken error if and only if \<open>z\<close> is the current level
  and the target cell is occupied; in every other case it returns.
\<close>

theorem move_outcome:
  assumes r: "reachable g"
    and rng: "0 \<le> x \<and> x \<le> 2 \<and> 0 \<le> y \<and> y \<le> 2 \<and> 0 \<le> z \<and> z \<le> 2"
  shows "(fst (move (x, y, z) g) = Inl WrongLevelError \<longleftrightarrow> z \<noteq> current_level g) \<and>
         (fst (move (x, y, z) g) = Inl CellTakenError \<longleftrightarrow>
            z = current_level g \<and> occupied g (x, y, z)) \<and>
         (z = current_level g \<and> \<not> occupied g (x, y, z) \<longrightarrow> fst (move (x, y, z) g) = Inr ())"
proof -
  have v: "valid g" using r by (rule reachable_valid)
  have "(x, y, z) \<in> dom (board g)"
    using v rng by (simp add: valid_def in_range_iter_xyz)
  then obtain sq where sq: "board g (x, y, z) = Some sq" by auto
  show ?thesis
  proof (cases "z = current_level g \<and> val sq = BLANK")
    case True
    then have "fst (move (x, y, z) g) = Inr ()"
      using move_ok(1) [OF v _ sq] by simp
    then show ?thesis using True sq by (simp add: occupied_def)
  next
    case False
    then show ?thesis using sq by (auto simp: move_def occupied_def)
  qed
qed

text \<open>
In a new game the first move at \<open>(0, 0, 0)\<close> is such a position.
\<close>

theorem move_outcome_witness:
  "reachable start \<and> 0 = current_level start \<and> \<not> occupied start (0, 0, 0) \<and>
   fst (move (0, 0, 0) start) = Inr () \<and>
   fst (move (0, 0, 0) start) \<noteq> Inl WrongLevelError \<and>
   fst (move (0, 0, 0) start) \<noteq> Inl CellTakenError"
proof -
  have rng: "0 \<le> (0 :: int) \<and> (0 :: int) \<le> 2 \<and> 0 \<le> (0 :: int) \<and> (0 :: int) \<le> 2 \<and>
      0 \<le> (0 :: int) \<and> (0 :: int) \<le> 2"
    by simp
  have lv: "0 = current_level start" by code_simp
  have emp: "\<not> occupied start (0, 0, 0)" by code_simp
  note mo = move_outcome [OF reachable_start rng]
  have wl: "fst (move (0, 0, 0) start) = Inl WrongLevelError \<longleftrightarrow> 0 \<noteq> current_level start"
    by (rule conjunct1 [OF mo])
  have ct: "fst (move (0, 0, 0) start) = Inl CellTakenError \<longleftrightarrow>
      0 = current_level start \<and> occupied start (0, 0, 0)"
    by (rule conjunct1 [OF conjunct2 [OF mo]])
  have ok: "fst (move (0, 0, 0) start) = Inr ()"
    by (rule mp [OF conjunct2 [OF conjunct2 [OF mo]] conjI [OF lv emp]])
  have nwl: "fst (move (0, 0, 0) start) \<noteq> Inl WrongLevelError"
    unfolding wl using lv by simp
  have nct: "fst (move (0, 0, 0) start) \<noteq> Inl CellTakenError"
    unfolding ct using emp by simp
  show ?thesis
    using reachable_start lv emp ok nwl nct by (intro conjI)
qed

text \<open>
  C2. Whenever \<open>move\<close> raises the wrong-level or the cell-taken error, at any position
  and so at every position with components in \<open>[0, 2]\<close>, the game is unchanged: the
  record after the call equals the record before it, which covers every cell, both
  scores, the move count, the first player and the status messages; and no signal has
  been sent.
\<close>

theorem move_failure_unchanged:
  assumes "fst (move p g) = Inl WrongLevelError \<or> fst (move p g) = Inl CellTakenError"
  shows "snd (snd (move p g)) = g \<and> fst (snd (move p g)) = []"
  using assms move_fail_unchanged [of p g] by auto

text \<open>
In a new game a move on level 1 raises the wrong-level error.
\<close>

theorem move_failure_unchanged_witness:
  "fst (move (0, 0, 1) start) = Inl WrongLevelError \<and>
   snd (snd (move (0, 0, 1) start)) = start \<and> fst (snd (move (0, 0, 1) start)) = []"
proof -
  have h: "fst (move (0, 0, 1) start) = Inl WrongLevelError" by code_simp
  then show ?thesis using move_failure_unchanged [of "(0, 0, 1)" start] by blast
qed

text \<open>
  C10. In a reachable game, a move at \<open>(x, y, z)\<close> where \<open>z\<close> is the current level and
  \<open>x\<close> or \<open>y\<close> lies outside \<open>[0, 2]\<close> raises \<open>KeyError\<close>, sends no signal and leaves
  the game unchanged.
\<close>

theorem move_outside_board:
  assumes r: "reachable g" and lv: "z = current_level g"
    and out: "x < 0 \<or> 2 < x \<or> y < 0 \<or> 2 < y"
  shows "move (x, y, z) g = (Inl KeyError, [], g)"
proof -
  have v: "valid g" using r by (rule reachable_valid)
  have "(x, y, z) \<notin> dom (board g)"
    using v out by (auto simp: valid_def in_range_iter_xyz)
  then have "board g (x, y, z) = None" by auto
  then show ?thesis using lv by (simp add: move_def)
qed

text \<open>
In a new game the move at \<open>(5, 0, 0)\<close> is such a move.
\<close>

theorem move_outside_board_witness:
  "reachable start \<and> 0 = current_level start \<and>
   move (5, 0, 0) start = (Inl KeyError, [], start)"
proof -
  have h: "0 = current_level start" by code_simp
  show ?thesis
    using reachable_start h move_outside_board [OF reachable_start h, of 5 0] by simp
qed

section \<open>The effect of a successful move\<close>

text \<open>
  C9. After a move at \<open>p\<close> that returns, from any game and so from every reachable
  one, every cell other than \<open>p\<close> has its square unchanged (occupant and special flag),
  every score other than that of the player who moved is unchanged, and the first player
  is unchanged; what may change is the target cell, the score of the mover, the move
  count and the status messages.
\<close>

theorem move_frame:
  assumes "fst (move p g) = Inr ()"
  shows "(\<forall>q. q \<noteq> p \<longrightarrow> board (snd (snd (move p g))) q = board g q) \<and>
         (\<forall>m. m \<noteq> current_player g \<longrightarrow> scores (snd (snd (move p g))) m = scores g m) \<and>
         first_player (snd (snd (move p g))) = first_player g"
proof -
  from assms obtain sq where lv: "snd (snd p) = current_level g"
    and sq: "board g p = Some sq" and bl: "val sq = BLANK"
    using move_success_guard by blast
  define g3 where "g3 = fill p (g\<lparr>status := []\<rparr>)"
  obtain r sent g4 where h: "handle_tictactoe p g3 = (r, sent, g4)"
    by (cases "handle_tictactoe p g3")
  have mv: "move p g = finish_move (BOARD_CHANGED # sent) g4"
    using move_unfold [OF lv sq bl] h assms unfolding g3_def [symmetric]
    by (cases r) auto
  have cp3: "current_player g3 = current_player g"
    by (simp add: g3_def fill_def current_player_def)
  have "board g4 = board g3" "first_player g4 = first_player g3"
    and sc: "\<And>m. m \<noteq> current_player g \<Longrightarrow> scores g4 m = scores g3 m"
    using handle_tictactoe_frame [where p = p and g = g3] h by (simp_all add: cp3)
  then show ?thesis
    unfolding mv by (simp add: finish_move_frame) (simp add: g3_def fill_def)
qed

text \<open>
The first move of a new game returns.
\<close>

theorem move_frame_witness:
  "fst (move (0, 0, 0) start) = Inr () \<and>
   board (snd (snd (move (0, 0, 0) start))) (1, 0, 0) = board start (1, 0, 0) \<and>
   scores (snd (snd (move (0, 0, 0) start))) BLUE = scores start BLUE \<and>
   first_player (snd (snd (move (0, 0, 0) start))) = first_player start"
proof -
  have h: "fst (move (0, 0, 0) start) = Inr ()" by code_simp
  have cp: "BLUE \<noteq> current_player start" by code_simp
  note mf = move_frame [OF h]
  have cells: "\<forall>q. q \<noteq> (0, 0, 0) \<longrightarrow>
      board (snd (snd (move (0, 0, 0) start))) q = board start q"
    by (rule conjunct1 [OF mf])
  have others: "\<forall>m. m \<noteq> current_player start \<longrightarrow>
      scores (snd (snd (move (0, 0, 0) start))) m = scores start m"
    by (rule conjunct1 [OF conjunct2 [OF mf]])
  have fp: "first_player (snd (snd (move (0, 0, 0) start))) = first_player start"
    by (rule conjunct2 [OF conjunct2 [OF mf]])
  have cell: "board (snd (snd (move (0, 0, 0) start))) (1, 0, 0) = board start (1, 0, 0)"
    using cells by simp
  have other: "scores (snd (snd (move (0, 0, 0) start))) BLUE = scores start BLUE"
    using others cp by simp
  show ?thesis using h cell other fp by (intro conjI)
qed

text \<open>
  C3. In a reachable game, a move at \<open>p\<close> that returns adds to the score of the player
  who moved the sum, over the lines of the table that contain \<open>p\<close> and whose cells all
  hold the mark of the mover after the move, of 2 if all cells of the line are special
  and 1 otherwise. The sum runs over the lines as sets of positions, so that each
  completed line is counted once.
\<close>

theorem move_points:
  assumes r: "reachable g" and mv: "move p g = (Inr (), sent, g')"
  shows "\<exists>s. scores g (current_player g) = Some s \<and>
             scores g' (current_player g) =
               Some (s + (\<Sum>line\<in>completed_lines g' (current_player g) p. line_value g' line))"
proof -
  have v: "valid g" using r by (rule reachable_valid)
  from mv have "fst (move p g) = Inr ()" by simp
  then obtain sq where lv: "snd (snd p) = current_level g"
    and sq: "board g p = Some sq" and bl: "val sq = BLANK"
    using move_success_guard by blast
  note ok = move_ok [OF v lv sq bl]
  have g': "g' = snd (snd (move p g))" using mv by simp
  have cp: "current_player g \<in> {RED, BLUE}"
    using v current_player_cases by (simp add: valid_def)
  then obtain s where s: "scores g (current_player g) = Some s"
    using v by (auto simp: valid_def)
  have b: "board g' = board (fill p g)"
    using sq unfolding g' ok(2) by (simp add: fill_def)
  have occ: "occupant g' = occupant (fill p g)" and sp: "is_special g' = is_special (fill p g)"
    by (simp_all add: occupant_def is_special_def b fun_eq_iff)
  have above: "\<forall>q. snd (snd p) < snd (snd q) \<longrightarrow> \<not> owned (fill p g) q"
  proof (intro allI impI)
    fix q :: position
    assume a: "snd (snd p) < snd (snd q)"
    then have "q \<noteq> p" by auto
    then have "occupant (fill p g) q = occupant g q"
      by (simp add: occupant_def fill_def)
    moreover have "occupant g q \<noteq> Some RED \<and> occupant g q \<noteq> Some BLUE"
      using v a lv by (cases q) (auto simp: valid_def)
    ultimately show "\<not> owned (fill p g) q"
      using cp by (auto simp: owned_def fill_fields)
  qed
  have "points (fill p g) p =
      (\<Sum>line\<in>completed_lines (fill p g) (current_player g) p. line_value (fill p g) line)"
    using points_completed [OF above] by (simp add: fill_fields)
  also have "\<dots> = (\<Sum>line\<in>completed_lines g' (current_player g) p. line_value g' line)"
    by (simp add: completed_lines_def line_value_def occ sp)
  finally have pts: "points (fill p g) p =
      (\<Sum>line\<in>completed_lines g' (current_player g) p. line_value g' line)" .
  have "scores g' (current_player g) = Some (s + points (fill p g) p)"
    unfolding g' ok(3) using s by simp
  then show ?thesis using s pts by simp
qed

text \<open>
  In \<open>row_game\<close> RED holds \<open>(0, 0, 0)\<close> and \<open>(1, 0, 0)\<close>, and the move at
  \<open>(2, 0, 0)\<close> completes the bottom row: the score of RED goes from 0 to 1, the cell
  \<open>(1, 0, 0)\<close> being the only special one of the three.
\<close>

theorem move_points_witness:
  "reachable row_game \<and> fst (move (2, 0, 0) row_game) = Inr () \<and>
   scores row_game RED = Some 0 \<and>
   scores (snd (snd (move (2, 0, 0) row_game))) RED = Some 1 \<and>
   (\<exists>s. scores row_game (current_player row_game) = Some s \<and>
        scores (snd (snd (move (2, 0, 0) row_game))) (current_player row_game) =
          Some (s + (\<Sum>line\<in>completed_lines (snd (snd (move (2, 0, 0) row_game)))
                       (current_player row_game) (2, 0, 0).
                     line_value (snd (snd (move (2, 0, 0) row_game))) line)))"
proof -
  have h: "fst (move (2, 0, 0) row_game) = Inr ()" by code_simp
  then have mv: "move (2, 0, 0) row_game =
      (Inr (), fst (snd (move (2, 0, 0) row_game)), snd (snd (move (2, 0, 0) row_game)))"
    by (simp add: prod_eq_iff)
  show ?thesis
    using reachable_row_game h row_game_scores(1,2) move_points [OF reachable_row_game mv]
    by (intro conjI)
qed

section \<open>Games since the last reset\<close>

text \<open>
  C5. Let a game whose board holds the 27 squares (the new game of the constructor, or
  any reachable game) be reset, and let the moves \<open>ps\<close> then all return. A cell is special
  in the resulting game if and only if it is occupied and it is the target of one of the
  moves, made when the move count modulo 9 was one of 1, 2, 6, 7. The move count at the
  \<open>i\<close>-th move is read from the game reached by the moves before it.
\<close>

theorem special_flag_history:
  assumes "dom (board g) = set iter_xyz" and "player_arg a"
    and "moves ps (snd (reset a r g)) = Some g'"
  shows "is_special g' q \<longleftrightarrow>
           occupied g' q \<and>
           (\<exists>i<length ps. ps ! i = q \<and>
              (\<exists>gi. moves (take i ps) (snd (reset a r g)) = Some gi \<and>
                    move_count gi mod 9 \<in> {1, 2, 6, 7}))"
proof -
  let ?g0 = "snd (reset a r g)"
  have fr: "fresh ?g0" using assms(1,2) by (rule fresh_reset)
  note inv = run_inv [OF fr assms(3)]
  have step: "(\<exists>gi. moves (take i ps) ?g0 = Some gi \<and> move_count gi mod 9 \<in> {1, 2, 6, 7})
      \<longleftrightarrow> int i mod 9 \<in> {1, 2, 6, 7}" if "i < length ps" for i
  proof -
    obtain gi where gi: "moves (take i ps) ?g0 = Some gi"
      using moves_take [OF assms(3)] by blast
    have "move_count gi = int i"
      using run_inv [OF fr gi] that by simp
    then show ?thesis using gi by simp
  qed
  have occ: "occupied g' q \<longleftrightarrow> q \<in> set ps" using inv by blast
  have "is_special g' q \<longleftrightarrow> (\<exists>i<length ps. ps ! i = q \<and> int i mod 9 \<in> {1, 2, 6, 7})"
    using inv by blast
  also have "\<dots> \<longleftrightarrow> (\<exists>i<length ps. ps ! i = q \<and>
      (\<exists>gi. moves (take i ps) ?g0 = Some gi \<and> move_count gi mod 9 \<in> {1, 2, 6, 7}))"
    using step by blast
  also have "\<dots> \<longleftrightarrow> occupied g' q \<and> (\<exists>i<length ps. ps ! i = q \<and>
      (\<exists>gi. moves (take i ps) ?g0 = Some gi \<and> move_count gi mod 9 \<in> {1, 2, 6, 7}))"
    using occ nth_mem [of _ ps] by blast
  finally show ?thesis .
qed

text \<open>
After the first two moves of a game the cell \<open>(1, 0, 0)\<close>, filled second, is special.
\<close>

theorem special_flag_history_witness:
  "\<exists>g'. moves two_moves (snd (reset (Some RED) 0 new_game)) = Some g' \<and>
     (is_special g' (1, 0, 0) \<longleftrightarrow>
        occupied g' (1, 0, 0) \<and>
        (\<exists>i<length two_moves. two_moves ! i = (1, 0, 0) \<and>
           (\<exists>gi. moves (take i two_moves) (snd (reset (Some RED) 0 new_game)) = Some gi \<and>
                 move_count gi mod 9 \<in> {1, 2, 6, 7})))"
proof -
  have "map_option move_count (moves two_moves (snd (reset (Some RED) 0 new_game))) = Some 2"
    by code_simp
  then obtain g' where g': "moves two_moves (snd (reset (Some RED) 0 new_game)) = Some g'"
    by auto
  have pa: "player_arg (Some RED)" by (simp add: player_arg_def)
  show ?thesis
    by (rule exI [of _ g'], rule conjI [OF g'])
       (rule special_flag_history [OF dom_new_game pa g'])
qed

text \<open>
  C8. After exactly 27 moves that all return, starting from the reset of a game whose
  board holds the 27 squares, the game is done and every one of the 27 cells is occupied.
\<close>

theorem full_board_done:
  assumes "dom (board g) = set iter_xyz" and "player_arg a"
    and "moves ps (snd (reset a r g)) = Some g'" and "length ps = 27"
  shows "done_game g' \<and> (\<forall>q\<in>set iter_xyz. occupied g' q)"
proof -
  have fr: "fresh (snd (reset a r g))" using assms(1,2) by (rule fresh_reset)
  note inv = run_inv [OF fr assms(3)]
  have "card (set ps) = 27" using inv assms(4) by (simp add: distinct_card)
  then have "set ps = set iter_xyz"
    using inv iter_xyz_card by (intro card_subset_eq) simp_all
  moreover have "done_game g'"
    using inv assms(4) by (simp add: done_game_def TOTAL_SQUARES_def SIZE_def)
  moreover have "occupied g' q \<longleftrightarrow> q \<in> set ps" for q using inv by blast
  ultimately show ?thesis by simp
qed

text \<open>
The game \<open>full_game\<close> fills the board level by level in 27 moves.
\<close>

theorem full_board_done_witness:
  "\<exists>g'. moves full_game (snd (reset (Some RED) 0 new_game)) = Some g' \<and>
     length full_game = 27 \<and> done_game g' \<and> (\<forall>q\<in>set iter_xyz. occupied g' q)"
proof -
  have "map_option move_count (moves full_game (snd (reset (Some RED) 0 new_game))) = Some 27"
    by code_simp
  then obtain g' where g': "moves full_game (snd (reset (Some RED) 0 new_game)) = Some g'"
    by auto
  have pa: "player_arg (Some RED)" by (simp add: player_arg_def)
  have len: "length full_game = 27" by code_simp
  show ?thesis
    by (rule exI [of _ g'], rule conjI [OF g'], rule conjI [OF len])
       (rule full_board_done [OF dom_new_game pa g' len])
qed

section \<open>The signals of a reset\<close>

text \<open>
  C6, as the code has it. Every call of \<open>reset\<close> sends each of the five signals exactly
  once, in the order of the tuple in \<open>reset\<close>, which is also the order of the docstring
  of \<open>Game\<close>: level changed, score changed, board changed, player changed, status
  changed.
\<close>

theorem reset_signals:
  "fst (reset a r g) =
     [LEVEL_CHANGED, SCORE_CHANGED None, BOARD_CHANGED, PLAYER_CHANGED, STATUS_CHANGED]"
  by (simp add: reset_def Let_def)

text \<open>
  C6, as stated, fails: the order board changed, score changed, player changed, level
  changed, status changed is not the order in which a reset of a new game sends the
  signals.
\<close>

theorem reset_signals_counterexample:
  "map signal_name (fst (reset None 0 start)) \<noteq>
     [''BOARD CHANGED'', ''SCORE CHANGED'', ''PLAYER CHANGED'', ''LEVEL CHANGED'',
      ''STATUS CHANGED'']"
  by (simp add: reset_def Let_def signal_name_def)

end
